theory Spec2Isabelle
  imports Main "HOL-Library.AList" "HOL-Library.Sublist" "HOL-Library.While_Combinator"
begin

section \<open>The copy-on-write trie of \<^verbatim>\<open>src/primer/trie.cpp\<close>\<close>

text \<open>
  The three operations \<^verbatim>\<open>Trie::Get\<close>, \<^verbatim>\<open>Trie::Put\<close> and \<^verbatim>\<open>Trie::Remove\<close> work on
  nodes owned through \<^verbatim>\<open>std::shared_ptr<const TrieNode>\<close>: one node object can be
  reached from many versions, and \<^verbatim>\<open>Put\<close>/\<^verbatim>\<open>Remove\<close> write into freshly cloned nodes
  through a \<^verbatim>\<open>const_cast\<close>. Object identity therefore matters, and the model keeps an
  explicit store: a heap is the list of all node objects ever allocated, an address is
  an index into it, \<^verbatim>\<open>std::make_shared\<close> appends a cell, and a null pointer is \<open>None\<close>.
  Reference counts and deallocation are not modelled: a cell that no version reaches
  any more simply stays in the list.
\<close>

subsection \<open>Nodes, pointers and the store\<close>

type_synonym addr = nat

text \<open>\<^verbatim>\<open>std::shared_ptr<const TrieNode>\<close>: null or the address of a node.\<close>

type_synonym ptr = "addr option"

text \<open>
  \<^verbatim>\<open>std::map<char, std::shared_ptr<const TrieNode>>\<close> as an association list. The code
  only uses \<^verbatim>\<open>find\<close>, \<^verbatim>\<open>at\<close>, \<^verbatim>\<open>empty\<close>, \<^verbatim>\<open>operator[]\<close> and the one-entry initialiser
  list, none of which observes the order of the entries.
\<close>

type_synonym child_map = "(char \<times> ptr) list"

text \<open>
  Modelled from the spec: the classes \<^verbatim>\<open>TrieNode\<close> and \<^verbatim>\<open>TrieNodeWithValue<T>\<close> are declared
  in \<^verbatim>\<open>primer/trie.h\<close>, which is not among the sources. The code uses the fields
  \<^verbatim>\<open>children_\<close>, \<^verbatim>\<open>is_value_node_\<close> and \<^verbatim>\<open>value_\<close>, the constructors and \<^verbatim>\<open>Clone\<close>;
  the fields are written here without the final underscore, which a name cannot end
  in, and \<^verbatim>\<open>value_\<close> is \<open>val\<close>. The field \<open>val\<close> is \<open>None\<close> for an object of class
  \<^verbatim>\<open>TrieNode\<close> and \<open>Some (T, v)\<close> for an object of class \<^verbatim>\<open>TrieNodeWithValue<T>\<close>
  whose \<^verbatim>\<open>value_\<close> points to \<open>v\<close>; the type variable \<open>'t\<close> stands for the C++ types a
  value can have. The flag \<open>is_value_node\<close> is a field of its own, as in the code, which
  tests it before it casts.
\<close>

record ('t, 'v) TrieNode =
  children :: child_map
  is_value_node :: bool
  val :: "('t \<times> 'v) option"

type_synonym ('t, 'v) heap = "('t, 'v) TrieNode list"

text \<open>The handle \<^verbatim>\<open>Trie\<close>: its only field is the root pointer.\<close>

record Trie =
  root :: ptr

text \<open>Modelled from the spec: \<^verbatim>\<open>TrieNode(children)\<close>, a plain node.\<close>

definition TrieNode_new :: "child_map \<Rightarrow> ('t, 'v) TrieNode" where
  "TrieNode_new ch = \<lparr>children = ch, is_value_node = False, val = None\<rparr>"

text \<open>
  Modelled from the spec: \<^verbatim>\<open>TrieNodeWithValue<T>(children, value)\<close>; the constructor with
  the value alone is the case of no children.
\<close>

definition TrieNodeWithValue_new :: "child_map \<Rightarrow> 't \<Rightarrow> 'v \<Rightarrow> ('t, 'v) TrieNode" where
  "TrieNodeWithValue_new ch T v = \<lparr>children = ch, is_value_node = True, val = Some (T, v)\<rparr>"

text \<open>
  Modelled from the spec: \<^verbatim>\<open>Clone\<close> is a shallow copy, with the same children mapping and
  the same value if there is one. The copy is a new object: the caller allocates it.
\<close>

definition Clone :: "('t, 'v) TrieNode \<Rightarrow> ('t, 'v) TrieNode" where
  "Clone n = n"

text \<open>
  \<^verbatim>\<open>dynamic_cast<const TrieNodeWithValue<T> *>(node)\<close> followed by \<^verbatim>\<open>value_.get()\<close>: the
  cast succeeds exactly on an object of class \<^verbatim>\<open>TrieNodeWithValue<T>\<close>.
\<close>

definition dynamic_cast :: "'t \<Rightarrow> ('t, 'v) TrieNode \<Rightarrow> 'v option" where
  "dynamic_cast T n =
     (case val n of None \<Rightarrow> None | Some (T', v) \<Rightarrow> if T' = T then Some v else None)"

text \<open>\<^verbatim>\<open>std::make_shared\<close>: the new object gets the next address.\<close>

definition alloc :: "('t, 'v) heap \<Rightarrow> ('t, 'v) TrieNode \<Rightarrow> ('t, 'v) heap \<times> addr" where
  "alloc h n = (h @ [n], length h)"

text \<open>
  What the code can run into: \<open>NullDeref\<close> for \<^verbatim>\<open>->\<close> on a null pointer, \<open>OutOfRange\<close> for
  \<^verbatim>\<open>std::map::at\<close> on a missing key.
\<close>

datatype fault = NullDeref | OutOfRange

definition deref :: "('t, 'v) heap \<Rightarrow> ptr \<Rightarrow> fault + ('t, 'v) TrieNode" where
  "deref h p = (case p of None \<Rightarrow> Inl NullDeref | Some a \<Rightarrow> Inr (h ! a))"

definition map_at :: "child_map \<Rightarrow> char \<Rightarrow> fault + ptr" where
  "map_at ch c = (case map_of ch c of None \<Rightarrow> Inl OutOfRange | Some p \<Rightarrow> Inr p)"

subsection \<open>\<^verbatim>\<open>Trie::Get\<close>\<close>

text \<open>
  The loop over the characters of the key (lines 15 to 20). \<open>Inr None\<close> is the early
  \<^verbatim>\<open>return nullptr\<close> of line 17, \<open>Inr (Some node)\<close> the pointer the loop ends with.
\<close>

fun Get_loop :: "('t, 'v) heap \<Rightarrow> ptr \<Rightarrow> string \<Rightarrow> fault + ptr option" where
  "Get_loop h node [] = Inr (Some node)"
| "Get_loop h node (c # key) =
     (if node = None then Inr None
      else
        (case deref h node of
           Inl e \<Rightarrow> Inl e
         | Inr n \<Rightarrow>
             if map_of (children n) c = None then Inr None
             else
               (case map_at (children n) c of
                  Inl e \<Rightarrow> Inl e
                | Inr child \<Rightarrow> Get_loop h child key)))"

text \<open>Lines 21 to 28: the test of the node the walk ended on, and the cast.\<close>

definition Get_value :: "('t, 'v) heap \<Rightarrow> ptr \<Rightarrow> 't \<Rightarrow> fault + 'v option" where
  "Get_value h node T =
     (if node = None then Inr None
      else
        (case deref h node of
           Inl e \<Rightarrow> Inl e
         | Inr n \<Rightarrow>
             if \<not> is_value_node n then Inr None
             else
               (case dynamic_cast T n of
                  None \<Rightarrow> Inr None
                | Some v \<Rightarrow> Inr (Some v))))"

text \<open>\<^verbatim>\<open>Get<T>(key)\<close>: \<open>Inr None\<close> is \<^verbatim>\<open>nullptr\<close>, \<open>Inr (Some v)\<close> a pointer to the stored \<open>v\<close>.\<close>

definition Get :: "('t, 'v) heap \<Rightarrow> Trie \<Rightarrow> string \<Rightarrow> 't \<Rightarrow> fault + 'v option" where
  "Get h t key T =
     (case Get_loop h (root t) key of
        Inl e \<Rightarrow> Inl e
      | Inr None \<Rightarrow> Inr None
      | Inr (Some node) \<Rightarrow> Get_value h node T)"

subsection \<open>The loops of \<^verbatim>\<open>Trie::Put\<close> and \<^verbatim>\<open>Trie::Remove\<close>\<close>

text \<open>
  \<^verbatim>\<open>cur->children_.find(ch) == cur->children_.end() ? nullptr : cur->children_.at(ch)\<close>
\<close>

definition find_or_null :: "child_map \<Rightarrow> char \<Rightarrow> ptr" where
  "find_or_null ch c = (case map_of ch c of None \<Rightarrow> None | Some p \<Rightarrow> p)"

text \<open>
  ``1. store old path'' (lines 49 to 54 and 95 to 100): the loop runs while
  \<^verbatim>\<open>idx < key_size && cur\<close> and returns \<^verbatim>\<open>idx\<close>, \<^verbatim>\<open>node_stack\<close> and \<^verbatim>\<open>cur\<close>. Only non-null
  pointers are pushed, so the stack is a list of addresses.
\<close>

function store_old_path ::
  "('t, 'v) heap \<Rightarrow> string \<Rightarrow> nat \<Rightarrow> addr list \<Rightarrow> ptr \<Rightarrow> nat \<times> addr list \<times> ptr" where
  "store_old_path h key idx node_stack cur =
     (if idx < length key then
        (case cur of
           None \<Rightarrow> (idx, node_stack, cur)
         | Some a \<Rightarrow>
             store_old_path h key (idx + 1) (node_stack @ [a])
               (find_or_null (children (h ! a)) (key ! idx)))
      else (idx, node_stack, cur))"
  by pat_completeness auto
termination
  by (relation "measure (\<lambda>(h, key, idx, node_stack, cur). length key - idx)") auto

text \<open>
  ``2.2 create diff inner nodes'' (lines 65 to 71): \<^verbatim>\<open>key_size\<close> counts down to \<^verbatim>\<open>idx\<close>,
  and each round allocates a plain node with the single entry \<^verbatim>\<open>{ch, child_node}\<close>.
\<close>

function create_inner ::
  "('t, 'v) heap \<Rightarrow> string \<Rightarrow> nat \<Rightarrow> nat \<Rightarrow> ptr \<Rightarrow> ('t, 'v) heap \<times> ptr" where
  "create_inner h key idx key_size child_node =
     (if idx < key_size then
        (let key_size' = key_size - 1;
             ch = key ! key_size';
             (h', cur) = alloc h (TrieNode_new [(ch, child_node)])
         in create_inner h' key idx key_size' (Some cur))
      else (h, child_node))"
  by pat_completeness auto
termination
  by (relation "measure (\<lambda>(h, key, idx, key_size, child_node). key_size - idx)") auto

text \<open>
  ``3. copy same node'' (lines 75 to 79 and 111 to 115). The index \<^verbatim>\<open>i\<close> is a \<^verbatim>\<open>size_t\<close>
  that starts at \<^verbatim>\<open>node_stack.size() - 1\<close> and is decremented while
  \<^verbatim>\<open>i < node_stack.size()\<close>: it takes the values \<open>size - 1, \<dots>, 0\<close>, and the decrement of
  \<open>0\<close> wraps to the largest \<^verbatim>\<open>size_t\<close>, which is below no vector size and ends the loop
  (an empty stack starts there). The third argument counts the rounds that remain,
  so the round in hand has \<open>i\<close> one below it. Each round allocates the clone of
  \<^verbatim>\<open>node_stack[i]\<close> and then writes \<^verbatim>\<open>children_[key[i]] = child_node\<close> into the new object.
  The result is \<^verbatim>\<open>cur\<close>, which both callers set to the initial \<^verbatim>\<open>child_node\<close> before the
  loop.
\<close>

fun copy_path ::
  "('t, 'v) heap \<Rightarrow> string \<Rightarrow> addr list \<Rightarrow> nat \<Rightarrow> ptr \<Rightarrow> ('t, 'v) heap \<times> ptr" where
  "copy_path h key node_stack 0 child_node = (h, child_node)"
| "copy_path h key node_stack (Suc i) child_node =
     (let (h1, cur) = alloc h (Clone (h ! (node_stack ! i)));
          h2 = h1[cur := (h1 ! cur)\<lparr>children :=
                  AList.update (key ! i) child_node (children (h1 ! cur))\<rparr>]
      in copy_path h2 key node_stack i (Some cur))"

subsection \<open>\<^verbatim>\<open>Trie::Put\<close>\<close>

text \<open>
  The value is moved into a \<^verbatim>\<open>shared_ptr\<close> and stored in the leaf; the result is the
  store after the call and the new handle \<^verbatim>\<open>Trie(cur)\<close>.
\<close>

definition Put ::
  "('t, 'v) heap \<Rightarrow> Trie \<Rightarrow> string \<Rightarrow> 't \<Rightarrow> 'v \<Rightarrow> ('t, 'v) heap \<times> Trie" where
  "Put h t key T v =
     (let (idx, node_stack, cur) = store_old_path h key 0 [] (root t);
          (h1, leaf_node) =
             (case cur of
                Some a \<Rightarrow> alloc h (TrieNodeWithValue_new (children (h ! a)) T v)
              | None \<Rightarrow> alloc h (TrieNodeWithValue_new [] T v));
          (h2, child_node) = create_inner h1 key idx (length key) (Some leaf_node);
          (h3, cur') = copy_path h2 key node_stack (length node_stack) child_node
      in (h3, \<lparr>root = cur'\<rparr>))"

subsection \<open>\<^verbatim>\<open>Trie::Remove\<close>\<close>

definition Remove :: "('t, 'v) heap \<Rightarrow> Trie \<Rightarrow> string \<Rightarrow> ('t, 'v) heap \<times> Trie" where
  "Remove h t key =
     (let (idx, node_stack, cur) = store_old_path h key 0 [] (root t)
      in if idx \<noteq> length key then (h, t)
         else
           (case cur of
              None \<Rightarrow> (h, t)
            | Some a \<Rightarrow>
                if \<not> is_value_node (h ! a) then (h, t)
                else
                  (let (h1, end_node) =
                         (if children (h ! a) = [] then (h, None)
                          else (let (h', e) = alloc h (TrieNode_new (children (h ! a)))
                                in (h', Some e)));
                       (h2, cur') = copy_path h1 key node_stack (length node_stack) end_node
                   in (h2, \<lparr>root = cur'\<rparr>))))"

subsection \<open>The loops as \<^verbatim>\<open>while\<close> loops\<close>

text \<open>
  The recursive functions above are total by their termination proofs. To state that
  the loops of the source end, they are written once more as what they are, a test and
  a body iterated from a start state, with the index arithmetic of \<^verbatim>\<open>size_t\<close>.

  \<^verbatim>\<open>std::size_t\<close> is taken to be 64 bits wide, as on the platforms the project builds
  for. \<open>size_t_dec\<close> is \<^verbatim>\<open>i--\<close> (and \<^verbatim>\<open>size() - 1\<close>) on a \<^verbatim>\<open>size_t\<close>: zero wraps to the
  largest value.
\<close>

definition SIZE_MAX :: nat where
  "SIZE_MAX = 2 ^ 64 - 1"

definition size_t_dec :: "nat \<Rightarrow> nat" where
  "size_t_dec i = (if i = 0 then SIZE_MAX else i - 1)"

text \<open>
  Test and body of ``store old path'', on the state \<^verbatim>\<open>(idx, node_stack, cur)\<close>. The body
  runs only when the test holds, so its case of a null \<^verbatim>\<open>cur\<close> is never taken.
\<close>

definition walk_cond :: "string \<Rightarrow> nat \<times> addr list \<times> ptr \<Rightarrow> bool" where
  "walk_cond key = (\<lambda>(idx, node_stack, cur). idx < length key \<and> cur \<noteq> None)"

definition walk_body ::
  "('t, 'v) heap \<Rightarrow> string \<Rightarrow> nat \<times> addr list \<times> ptr \<Rightarrow> nat \<times> addr list \<times> ptr" where
  "walk_body h key = (\<lambda>(idx, node_stack, cur).
     case cur of
       Some a \<Rightarrow> (idx + 1, node_stack @ [a], find_or_null (children (h ! a)) (key ! idx))
     | None \<Rightarrow> (idx, node_stack, cur))"

text \<open>
  Test and body of ``create diff inner nodes'', on the store and \<^verbatim>\<open>(key_size, child_node)\<close>.
\<close>

definition inner_cond :: "nat \<Rightarrow> ('t, 'v) heap \<times> nat \<times> ptr \<Rightarrow> bool" where
  "inner_cond idx = (\<lambda>(h, key_size, child_node). idx < key_size)"

definition inner_body ::
  "string \<Rightarrow> ('t, 'v) heap \<times> nat \<times> ptr \<Rightarrow> ('t, 'v) heap \<times> nat \<times> ptr" where
  "inner_body key = (\<lambda>(h, key_size, child_node).
     let key_size' = key_size - 1;
         ch = key ! key_size';
         (h', cur) = alloc h (TrieNode_new [(ch, child_node)])
     in (h', key_size', Some cur))"

text \<open>
  Test and body of ``copy same node'', on the store and \<^verbatim>\<open>(i, child_node)\<close>, with \<^verbatim>\<open>i\<close> the
  \<^verbatim>\<open>size_t\<close> of the source; \<^verbatim>\<open>cur\<close> equals \<^verbatim>\<open>child_node\<close> before the loop and after every
  round.
\<close>

definition copy_cond :: "addr list \<Rightarrow> ('t, 'v) heap \<times> nat \<times> ptr \<Rightarrow> bool" where
  "copy_cond node_stack = (\<lambda>(h, i, child_node). i < length node_stack)"

definition copy_body ::
  "string \<Rightarrow> addr list \<Rightarrow> ('t, 'v) heap \<times> nat \<times> ptr \<Rightarrow> ('t, 'v) heap \<times> nat \<times> ptr" where
  "copy_body key node_stack = (\<lambda>(h, i, child_node).
     let (h1, cur) = alloc h (Clone (h ! (node_stack ! i)));
         h2 = h1[cur := (h1 ! cur)\<lparr>children :=
                 AList.update (key ! i) child_node (children (h1 ! cur))\<rparr>]
     in (h2, size_t_dec i, Some cur))"

text \<open>
  \<^verbatim>\<open>Put\<close> and \<^verbatim>\<open>Remove\<close> with these loops run by \<^const>\<open>while_option\<close>, which is \<open>None\<close> for a
  loop that does not end.
\<close>

definition Put_while ::
  "('t, 'v) heap \<Rightarrow> Trie \<Rightarrow> string \<Rightarrow> 't \<Rightarrow> 'v \<Rightarrow> (('t, 'v) heap \<times> Trie) option" where
  "Put_while h t key T v =
     (case while_option (walk_cond key) (walk_body h key) (0, [], root t) of
        None \<Rightarrow> None
      | Some (idx, node_stack, cur) \<Rightarrow>
          (let (h1, leaf_node) =
                 (case cur of
                    Some a \<Rightarrow> alloc h (TrieNodeWithValue_new (children (h ! a)) T v)
                  | None \<Rightarrow> alloc h (TrieNodeWithValue_new [] T v))
           in case while_option (inner_cond idx) (inner_body key)
                     (h1, length key, Some leaf_node) of
                None \<Rightarrow> None
              | Some (h2, key_size, child_node) \<Rightarrow>
                  (case while_option (copy_cond node_stack) (copy_body key node_stack)
                          (h2, size_t_dec (length node_stack), child_node) of
                     None \<Rightarrow> None
                   | Some (h3, i, cur') \<Rightarrow> Some (h3, \<lparr>root = cur'\<rparr>))))"

definition Remove_while ::
  "('t, 'v) heap \<Rightarrow> Trie \<Rightarrow> string \<Rightarrow> (('t, 'v) heap \<times> Trie) option" where
  "Remove_while h t key =
     (case while_option (walk_cond key) (walk_body h key) (0, [], root t) of
        None \<Rightarrow> None
      | Some (idx, node_stack, cur) \<Rightarrow>
          if idx \<noteq> length key then Some (h, t)
          else
            (case cur of
               None \<Rightarrow> Some (h, t)
             | Some a \<Rightarrow>
                 if \<not> is_value_node (h ! a) then Some (h, t)
                 else
                   (let (h1, end_node) =
                          (if children (h ! a) = [] then (h, None)
                           else (let (h', e) = alloc h (TrieNode_new (children (h ! a)))
                                 in (h', Some e)))
                    in case while_option (copy_cond node_stack) (copy_body key node_stack)
                              (h1, size_t_dec (length node_stack), end_node) of
                         None \<Rightarrow> None
                       | Some (h2, i, cur') \<Rightarrow> Some (h2, \<lparr>root = cur'\<rparr>))))"

subsection \<open>Well-formed stores\<close>

text \<open>
  A \<^verbatim>\<open>shared_ptr\<close> is null or owns a live object: every address stored in a node or in a
  handle is an address of the store.
\<close>

definition valid_ptr :: "('t, 'v) heap \<Rightarrow> ptr \<Rightarrow> bool" where
  "valid_ptr h p = (case p of None \<Rightarrow> True | Some a \<Rightarrow> a < length h)"

definition heap_closed :: "('t, 'v) heap \<Rightarrow> bool" where
  "heap_closed h = list_all (\<lambda>n. list_all (\<lambda>(c, p). valid_ptr h p) (children n)) h"

definition trie_ok :: "('t, 'v) heap \<Rightarrow> Trie \<Rightarrow> bool" where
  "trie_ok h t = (heap_closed h \<and> valid_ptr h (root t))"

subsection \<open>Notions used in the proofs\<close>

text \<open>The child a walk moves to from \<open>b\<close> on character \<open>c\<close>; null has no children.\<close>

definition child_of :: "('t, 'v) heap \<Rightarrow> ptr \<Rightarrow> char \<Rightarrow> ptr" where
  "child_of h b c = (case b of None \<Rightarrow> None | Some a \<Rightarrow> find_or_null (children (h ! a)) c)"

text \<open>
  \<open>upd_of h' p' h p ks r\<close>: read through \<^const>\<open>Get\<close>, the trie at \<open>p'\<close> in the store \<open>h'\<close> is
  the trie at \<open>p\<close> in \<open>h\<close> with the answer at the one key \<open>ks\<close> replaced by \<open>r\<close>.
\<close>

definition upd_of ::
  "('t, 'v) heap \<Rightarrow> ptr \<Rightarrow> ('t, 'v) heap \<Rightarrow> ptr \<Rightarrow> string \<Rightarrow>
   ('t \<Rightarrow> fault + 'v option) \<Rightarrow> bool" where
  "upd_of h' p' h p ks r \<longleftrightarrow>
     (\<forall>key U. Get h' \<lparr>root = p'\<rparr> key U =
        (if key = ks then r U else Get h \<lparr>root = p\<rparr> key U))"

text \<open>
  \<open>path h p ks st q\<close>: from \<open>p\<close>, the characters \<open>ks\<close> lead through exactly the nodes \<open>st\<close>
  and end at the pointer \<open>q\<close>. This is what ``store old path'' has recorded after
  \<open>length ks\<close> rounds.
\<close>

inductive path :: "('t, 'v) heap \<Rightarrow> ptr \<Rightarrow> string \<Rightarrow> addr list \<Rightarrow> ptr \<Rightarrow> bool"
  for h :: "('t, 'v) heap" and p :: ptr where
  path_Nil: "path h p [] [] p"
| path_snoc: "path h p ks st (Some a) \<Longrightarrow>
     path h p (ks @ [c]) (st @ [a]) (child_of h (Some a) c)"

text \<open>What \<^const>\<open>Get\<close> answers at a key that holds \<open>v\<close> of type \<open>T\<close>, and at a removed key.\<close>

definition put_result :: "'t \<Rightarrow> 'v \<Rightarrow> 't \<Rightarrow> fault + 'v option" where
  "put_result T v U = Inr (if T = U then Some v else None)"

definition removed :: "'t \<Rightarrow> fault + 'v option" where
  "removed U = Inr None"

subsection \<open>A store to run the operations on\<close>

text \<open>
  The store after \<^verbatim>\<open>Put("a", 1)\<close>, \<^verbatim>\<open>Put("ab", 2)\<close> (both \<^verbatim>\<open>uint32_t\<close>) and
  \<^verbatim>\<open>Put("ac", 3)\<close> (\<^verbatim>\<open>uint64_t\<close>) on the empty trie; a type is named by a string.
\<close>

definition ex_heap :: "(string, nat) heap" where
  "ex_heap =
    [\<lparr>children = [], is_value_node = True, val = Some (''uint32_t'', 1)\<rparr>,
     \<lparr>children = [(CHR ''a'', Some 0)], is_value_node = False, val = None\<rparr>,
     \<lparr>children = [], is_value_node = True, val = Some (''uint32_t'', 2)\<rparr>,
     \<lparr>children = [(CHR ''b'', Some 2)], is_value_node = True, val = Some (''uint32_t'', 1)\<rparr>,
     \<lparr>children = [(CHR ''a'', Some 3)], is_value_node = False, val = None\<rparr>,
     \<lparr>children = [], is_value_node = True, val = Some (''uint64_t'', 3)\<rparr>,
     \<lparr>children = [(CHR ''b'', Some 2), (CHR ''c'', Some 5)], is_value_node = True,
        val = Some (''uint32_t'', 1)\<rparr>,
     \<lparr>children = [(CHR ''a'', Some 6)], is_value_node = False, val = None\<rparr>]"

definition ex_trie :: Trie where
  "ex_trie = \<lparr>root = Some 7\<rparr>"

text \<open>The cells that \<^verbatim>\<open>Put("ab", 5)\<close> with type \<^verbatim>\<open>uint64_t\<close> adds; the new root is cell 10.\<close>

definition ex_heap_put :: "(string, nat) heap" where
  "ex_heap_put = ex_heap @
    [\<lparr>children = [], is_value_node = True, val = Some (''uint64_t'', 5)\<rparr>,
     \<lparr>children = [(CHR ''b'', Some 8), (CHR ''c'', Some 5)], is_value_node = True,
        val = Some (''uint32_t'', 1)\<rparr>,
     \<lparr>children = [(CHR ''a'', Some 9)], is_value_node = False, val = None\<rparr>]"

text \<open>The cells that \<^verbatim>\<open>Remove("ab")\<close> then adds; the new root is cell 12.\<close>

definition ex_heap_rem :: "(string, nat) heap" where
  "ex_heap_rem = ex_heap_put @
    [\<lparr>children = [(CHR ''b'', None), (CHR ''c'', Some 5)], is_value_node = True,
        val = Some (''uint32_t'', 1)\<rparr>,
     \<lparr>children = [(CHR ''a'', Some 11)], is_value_node = False, val = None\<rparr>]"

text \<open>\<^verbatim>\<open>Put("ab", 7)\<close> on the empty trie, and \<^verbatim>\<open>Remove("ab")\<close> after it.\<close>

definition ex_single :: "(string, nat) heap" where
  "ex_single =
    [\<lparr>children = [], is_value_node = True, val = Some (''uint32_t'', 7)\<rparr>,
     \<lparr>children = [(CHR ''b'', Some 0)], is_value_node = False, val = None\<rparr>,
     \<lparr>children = [(CHR ''a'', Some 1)], is_value_node = False, val = None\<rparr>]"

definition ex_single_rem :: "(string, nat) heap" where
  "ex_single_rem = ex_single @
    [\<lparr>children = [(CHR ''b'', None)], is_value_node = False, val = None\<rparr>,
     \<lparr>children = [(CHR ''a'', Some 3)], is_value_node = False, val = None\<rparr>]"

section \<open>Properties\<close>

declare store_old_path.simps [simp del]
declare create_inner.simps [simp del]

subsection \<open>Reading a trie\<close>

text \<open>
  \<^const>\<open>Get\<close> one character at a time, and the frame property: a store that only grew
  reads the same from every pointer of the old store.
\<close>

lemma Get_null [simp]: "Get h \<lparr>root = None\<rparr> key T = Inr None"
  by (cases key) (simp_all add: Get_def Get_value_def)

lemma Get_Nil: "Get h \<lparr>root = p\<rparr> [] T = Get_value h p T"
  by (simp add: Get_def)

lemma Get_Cons:
  "Get h \<lparr>root = Some a\<rparr> (c # cs) T = Get h \<lparr>root = find_or_null (children (h ! a)) c\<rparr> cs T"
  using Get_null [of h cs T]
  by (auto simp: Get_def deref_def map_at_def find_or_null_def split: option.splits)

lemma Get_root: "Get h t key T = Get h \<lparr>root = root t\<rparr> key T"
  by (simp add: Get_def)

lemma valid_ptr_simps [simp]:
  "valid_ptr h None" "valid_ptr h (Some a) \<longleftrightarrow> a < length h"
  by (simp_all add: valid_ptr_def)

lemma heap_closed_child:
  assumes "heap_closed h" "a < length h"
  shows "valid_ptr h (find_or_null (children (h ! a)) c)"
proof (cases "map_of (children (h ! a)) c")
  case None
  then show ?thesis by (simp add: find_or_null_def)
next
  case (Some p)
  then have "(c, p) \<in> set (children (h ! a))" by (rule map_of_SomeD)
  moreover have "list_all (\<lambda>(c, p). valid_ptr h p) (children (h ! a))"
    using assms by (simp add: heap_closed_def list_all_length)
  ultimately have "valid_ptr h p" by (auto simp: list_all_iff)
  with Some show ?thesis by (simp add: find_or_null_def)
qed

lemma valid_ptr_prefix: "prefix h h' \<Longrightarrow> valid_ptr h p \<Longrightarrow> valid_ptr h' p"
  by (cases p) (auto dest: prefix_length_le)

lemma prefix_nth: "prefix h h' \<Longrightarrow> a < length h \<Longrightarrow> h' ! a = h ! a"
  by (auto simp: prefix_def nth_append)

lemma Get_value_prefix:
  "prefix h h' \<Longrightarrow> valid_ptr h p \<Longrightarrow> Get_value h' p T = Get_value h p T"
  by (cases p) (simp_all add: Get_value_def deref_def prefix_nth)

lemma Get_prefix:
  "prefix h h' \<Longrightarrow> heap_closed h \<Longrightarrow> valid_ptr h p \<Longrightarrow>
   Get h' \<lparr>root = p\<rparr> key T = Get h \<lparr>root = p\<rparr> key T"
proof (induction key arbitrary: p)
  case Nil
  then show ?case by (simp add: Get_Nil Get_value_prefix)
next
  case (Cons c cs)
  show ?case
  proof (cases p)
    case None
    then show ?thesis by simp
  next
    case (Some a)
    with Cons.prems have a: "a < length h" by simp
    have "valid_ptr h (find_or_null (children (h ! a)) c)"
      using Cons.prems(2) a by (rule heap_closed_child)
    with Cons.IH Cons.prems(1,2)
    show ?thesis using Some a by (simp add: Get_Cons prefix_nth)
  qed
qed

subsection \<open>One key changed\<close>

text \<open>
  A freshly allocated node that reads as the node \<open>b\<close> at the empty key, has the new
  child under \<open>c\<close> and the children of \<open>b\<close> elsewhere, changes the one key \<open>c # rest\<close> when
  the new child changes \<open>rest\<close>. All three kinds of node the code builds above the
  terminal one are of this form.
\<close>

lemma Get_step: "Get h \<lparr>root = b\<rparr> (c # cs) T = Get h \<lparr>root = child_of h b c\<rparr> cs T"
  by (cases b) (simp_all add: child_of_def Get_Cons)

lemma valid_child_of: "heap_closed h \<Longrightarrow> valid_ptr h b \<Longrightarrow> valid_ptr h (child_of h b c)"
  by (cases b) (simp_all add: child_of_def heap_closed_child)

lemma upd_of_node:
  assumes h: "heap_closed h" "valid_ptr h b" "prefix h h1"
    and h1: "heap_closed h1" "valid_ptr h1 child"
    and v: "\<And>U. Get_value (h1 @ [N]) (Some (length h1)) U = Get_value h b U"
    and c: "find_or_null (children N) c = child"
    and c': "\<And>c'. c' \<noteq> c \<Longrightarrow> find_or_null (children N) c' = child_of h b c'"
    and u: "upd_of h1 child h (child_of h b c) rest r"
  shows "upd_of (h1 @ [N]) (Some (length h1)) h b (c # rest) r"
  unfolding upd_of_def
proof (intro allI)
  fix key :: string and U
  let ?h2 = "h1 @ [N]"
  have p12: "prefix h1 ?h2" by simp
  have p02: "prefix h ?h2" using h(3) p12 by (rule prefix_order.trans)
  show "Get ?h2 \<lparr>root = Some (length h1)\<rparr> key U =
        (if key = c # rest then r U else Get h \<lparr>root = b\<rparr> key U)"
  proof (cases key)
    case Nil
    then show ?thesis by (simp add: Get_Nil v)
  next
    case (Cons c' cs)
    show ?thesis
    proof (cases "c' = c")
      case True
      have "Get ?h2 \<lparr>root = Some (length h1)\<rparr> key U = Get ?h2 \<lparr>root = child\<rparr> cs U"
        using Cons True c by (simp add: Get_Cons)
      also have "\<dots> = Get h1 \<lparr>root = child\<rparr> cs U"
        using p12 h1 by (rule Get_prefix)
      also have "\<dots> = (if cs = rest then r U else Get h \<lparr>root = child_of h b c\<rparr> cs U)"
        using u by (simp add: upd_of_def)
      finally show ?thesis using Cons True by (simp add: Get_step)
    next
      case False
      have "Get ?h2 \<lparr>root = Some (length h1)\<rparr> key U = Get ?h2 \<lparr>root = child_of h b c'\<rparr> cs U"
        using Cons False c' by (simp add: Get_Cons)
      also have "\<dots> = Get h \<lparr>root = child_of h b c'\<rparr> cs U"
        using p02 h(1) valid_child_of [OF h(1,2)] by (rule Get_prefix)
      finally show ?thesis using Cons False by (simp add: Get_step)
    qed
  qed
qed

lemma path_length: "path h p ks st q \<Longrightarrow> length st = length ks"
  by (induction rule: path.induct) simp_all

lemma path_valid:
  "path h p ks st q \<Longrightarrow> heap_closed h \<Longrightarrow> valid_ptr h p \<Longrightarrow> valid_ptr h q"
  by (induction rule: path.induct) (simp_all add: valid_child_of)

lemma path_Get:
  "path h p ks st q \<Longrightarrow> Get h \<lparr>root = p\<rparr> (ks @ rest) U = Get h \<lparr>root = q\<rparr> rest U"
  by (induction arbitrary: rest rule: path.induct) (simp_all add: Get_step)

lemma store_old_path_path:
  "path h p (take idx key) st cur \<Longrightarrow> idx \<le> length key \<Longrightarrow>
   store_old_path h key idx st cur = (idx', st', cur') \<Longrightarrow>
   path h p (take idx' key) st' cur' \<and> idx \<le> idx' \<and> idx' \<le> length key \<and>
   (idx' < length key \<longrightarrow> cur' = None)"
proof (induction h key idx st cur rule: store_old_path.induct)
  case (1 h key idx node_stack cur)
  show ?case
  proof (cases "idx < length key")
    case False
    with "1.prems" show ?thesis by (simp add: store_old_path.simps)
  next
    case lt: True
    show ?thesis
    proof (cases cur)
      case None
      with lt "1.prems" show ?thesis by (simp add: store_old_path.simps)
    next
      case (Some a)
      let ?cur = "find_or_null (children (h ! a)) (key ! idx)"
      have "path h p (take idx key @ [key ! idx]) (node_stack @ [a]) (child_of h (Some a) (key ! idx))"
        using "1.prems"(1) Some by (auto intro: path_snoc)
      then have p: "path h p (take (idx + 1) key) (node_stack @ [a]) ?cur"
        using lt by (simp add: take_Suc_conv_app_nth child_of_def)
      have r: "store_old_path h key (idx + 1) (node_stack @ [a]) ?cur = (idx', st', cur')"
        using "1.prems"(3) lt Some by (subst (asm) store_old_path.simps) simp
      have "path h p (take idx' key) st' cur' \<and> idx + 1 \<le> idx' \<and> idx' \<le> length key \<and>
            (idx' < length key \<longrightarrow> cur' = None)"
        using "1.IH" [OF lt Some p _ r] lt by simp
      then show ?thesis by simp
    qed
  qed
qed

subsection \<open>The rebuilding loops\<close>

text \<open>
  Both loops only append cells, keep the store closed, and turn a child that changes the
  rest of the key into a root that changes the whole key.
\<close>

lemma list_all_update:
  "list_all P al \<Longrightarrow> P (k, v) \<Longrightarrow> list_all P (AList.update k v al)"
  by (induction al) auto

lemma find_or_null_update:
  "find_or_null (AList.update k v al) c = (if c = k then v else find_or_null al c)"
  by (simp add: find_or_null_def update_conv')

lemma heap_closed_children:
  "heap_closed h \<Longrightarrow> a < length h \<Longrightarrow> list_all (\<lambda>(c, p). valid_ptr h p) (children (h ! a))"
  by (simp add: heap_closed_def list_all_length)

lemma children_valid_mono:
  "list_all (\<lambda>(c, p). valid_ptr h p) ch \<Longrightarrow> prefix h h' \<Longrightarrow>
   list_all (\<lambda>(c, p). valid_ptr h' p) ch"
  by (auto simp: list_all_iff dest: valid_ptr_prefix)

lemma heap_closed_snoc:
  assumes "heap_closed h" "list_all (\<lambda>(c, p). valid_ptr h p) (children n)"
  shows "heap_closed (h @ [n])"
proof -
  have "valid_ptr (h @ [n]) p" if "valid_ptr h p" for p
    using that by (auto intro: valid_ptr_prefix)
  then show ?thesis
    using assms by (fastforce simp: heap_closed_def list_all_iff)
qed

lemma copy_path_append:
  "i \<le> length st \<Longrightarrow> copy_path h key (st @ ys) i c = copy_path h key st i c"
  by (induction i arbitrary: h c) (simp_all add: nth_append)

lemma copy_path_upd:
  assumes "path h p ks st q"
  shows "heap_closed h \<Longrightarrow> valid_ptr h p \<Longrightarrow> prefix h h1 \<Longrightarrow> heap_closed h1 \<Longrightarrow>
     valid_ptr h1 child \<Longrightarrow> upd_of h1 child h q rest r \<Longrightarrow>
     copy_path h1 (ks @ rest) st (length st) child = (h', p') \<Longrightarrow>
     prefix h1 h' \<and> heap_closed h' \<and> valid_ptr h' p' \<and> upd_of h' p' h p (ks @ rest) r"
  using assms
proof (induction arbitrary: h1 child rest rule: path.induct)
  case path_Nil
  then show ?case by simp
next
  case (path_snoc ks st a c)
  let ?n = "h ! a"
  let ?N = "?n\<lparr>children := AList.update c child (children ?n)\<rparr>"
  let ?h2 = "h1 @ [?N]"
  have len: "length st = length ks" using path_snoc.hyps by (rule path_length)
  have a: "a < length h"
    using path_valid [OF path_snoc.hyps path_snoc.prems(1,2)] by simp
  then have a1: "h1 ! a = ?n" using path_snoc.prems(3) by (simp add: prefix_nth)
  have run: "copy_path ?h2 (ks @ c # rest) st (length st) (Some (length h1)) = (h', p')"
    using path_snoc.prems(7) a1 len
    by (simp add: alloc_def Clone_def nth_append copy_path_append)
  have p12: "prefix h1 ?h2" by simp
  have p02: "prefix h ?h2" using path_snoc.prems(3) p12 by (rule prefix_order.trans)
  have "list_all (\<lambda>(c, p). valid_ptr h1 p) (children ?n)"
    using heap_closed_children [OF path_snoc.prems(1) a] path_snoc.prems(3)
    by (rule children_valid_mono)
  then have "list_all (\<lambda>(c, p). valid_ptr h1 p) (children ?N)"
    using path_snoc.prems(5) by (simp add: list_all_update)
  then have closed2: "heap_closed ?h2"
    using path_snoc.prems(4) by (simp add: heap_closed_snoc)
  have valid2: "valid_ptr ?h2 (Some (length h1))" by simp
  have "upd_of ?h2 (Some (length h1)) h (Some a) (c # rest) r"
  proof (rule upd_of_node)
    show "heap_closed h" "valid_ptr h (Some a)" "prefix h h1" "heap_closed h1" "valid_ptr h1 child"
      using path_snoc.prems a by simp_all
    show "Get_value ?h2 (Some (length h1)) U = Get_value h (Some a) U" for U
      by (simp add: Get_value_def deref_def dynamic_cast_def)
    show "find_or_null (children ?N) c = child"
      by (simp add: find_or_null_update)
    show "find_or_null (children ?N) c' = child_of h (Some a) c'" if "c' \<noteq> c" for c'
      using that by (simp add: find_or_null_update child_of_def)
    show "upd_of h1 child h (child_of h (Some a) c) rest r"
      using path_snoc.prems(6) .
  qed
  from path_snoc.IH [OF path_snoc.prems(1,2) p02 closed2 valid2 this run]
  have "prefix ?h2 h' \<and> heap_closed h' \<and> valid_ptr h' p' \<and> upd_of h' p' h p (ks @ c # rest) r" .
  moreover from this have "prefix h1 h'"
    using p12 prefix_order.trans by blast
  ultimately show ?case by simp
qed

lemma create_inner_upd:
  "heap_closed h \<Longrightarrow> valid_ptr h b \<Longrightarrow> prefix h h1 \<Longrightarrow> heap_closed h1 \<Longrightarrow>
   valid_ptr h1 child \<Longrightarrow> idx \<le> key_size \<Longrightarrow> key_size \<le> length key \<Longrightarrow>
   (idx < key_size \<longrightarrow> b = None) \<Longrightarrow>
   upd_of h1 child h b (drop key_size key) r \<Longrightarrow>
   create_inner h1 key idx key_size child = (h', q) \<Longrightarrow>
   prefix h1 h' \<and> heap_closed h' \<and> valid_ptr h' q \<and> upd_of h' q h b (drop idx key) r"
proof (induction h1 key idx key_size child rule: create_inner.induct)
  case (1 h1 key idx key_size child_node)
  show ?case
  proof (cases "idx < key_size")
    case False
    with "1.prems" show ?thesis by (simp add: create_inner.simps)
  next
    case lt: True
    let ?k = "key_size - 1"
    let ?N = "TrieNode_new [(key ! ?k, child_node)] :: ('a, 'b) TrieNode"
    let ?h2 = "h1 @ [?N]"
    have b: "b = None" using "1.prems"(8) lt by simp
    have k: "?k < length key" "Suc ?k = key_size" using lt "1.prems"(7) by simp_all
    have dr: "drop ?k key = key ! ?k # drop key_size key"
      using Cons_nth_drop_Suc [OF k(1)] k(2) by simp
    have run: "create_inner ?h2 key idx ?k (Some (length h1)) = (h', q)"
      using "1.prems"(10) lt by (subst (asm) create_inner.simps) (simp add: alloc_def Let_def)
    have p12: "prefix h1 ?h2" by simp
    have p02: "prefix h ?h2" using "1.prems"(3) p12 by (rule prefix_order.trans)
    have closed2: "heap_closed ?h2"
      using "1.prems"(4,5) by (simp add: heap_closed_snoc TrieNode_new_def)
    have "upd_of ?h2 (Some (length h1)) h b (key ! ?k # drop key_size key) r"
    proof (rule upd_of_node)
      show "heap_closed h" "valid_ptr h b" "prefix h h1" "heap_closed h1" "valid_ptr h1 child_node"
        using "1.prems" by simp_all
      show "Get_value ?h2 (Some (length h1)) U = Get_value h b U" for U
        using b by (simp add: Get_value_def deref_def TrieNode_new_def)
      show "find_or_null (children ?N) (key ! ?k) = child_node"
        by (simp add: find_or_null_def TrieNode_new_def)
      show "find_or_null (children ?N) c' = child_of h b c'" if "c' \<noteq> key ! ?k" for c'
        using that b by (simp add: find_or_null_def TrieNode_new_def child_of_def)
      show "upd_of h1 child_node h (child_of h b (key ! ?k)) (drop key_size key) r"
        using "1.prems"(9) b by (simp add: child_of_def)
    qed
    then have u2: "upd_of ?h2 (Some (length h1)) h b (drop ?k key) r"
      by (simp only: dr)
    have "prefix ?h2 h' \<and> heap_closed h' \<and> valid_ptr h' q \<and> upd_of h' q h b (drop idx key) r"
    proof (rule "1.IH" [OF lt refl refl refl _ "1.prems"(1,2) p02 closed2 _ _ _ _ u2 run])
      show "(?h2, length h1) = alloc h1 ?N" by (simp add: alloc_def)
      show "valid_ptr ?h2 (Some (length h1))" by simp
      show "idx \<le> ?k" using lt by simp
      show "?k \<le> length key" using k by simp
      show "idx < ?k \<longrightarrow> b = None" using b by simp
    qed
    moreover from this have "prefix h1 h'"
      using p12 prefix_order.trans by blast
    ultimately show ?thesis by simp
  qed
qed

subsection \<open>What \<^verbatim>\<open>Put\<close> and \<^verbatim>\<open>Remove\<close> build\<close>

text \<open>
  The result of either operation is a store that extends the old one, is well-formed
  again, and reads as the old version with the one key changed.
\<close>

lemma upd_of_here:
  assumes "heap_closed h" "valid_ptr h b" "prefix h h1"
    and v: "\<And>U. Get_value h1 p' U = r U"
    and c: "\<And>c. child_of h1 p' c = child_of h b c"
  shows "upd_of h1 p' h b [] r"
  unfolding upd_of_def
proof (intro allI)
  fix key :: string and U
  show "Get h1 \<lparr>root = p'\<rparr> key U = (if key = [] then r U else Get h \<lparr>root = b\<rparr> key U)"
  proof (cases key)
    case Nil
    then show ?thesis by (simp add: Get_Nil v)
  next
    case (Cons c' cs)
    have "Get h1 \<lparr>root = p'\<rparr> key U = Get h1 \<lparr>root = child_of h b c'\<rparr> cs U"
      using Cons by (simp add: Get_step c)
    also have "\<dots> = Get h \<lparr>root = child_of h b c'\<rparr> cs U"
      using assms(3,1) valid_child_of [OF assms(1,2)] by (rule Get_prefix)
    finally show ?thesis using Cons by (simp add: Get_step)
  qed
qed

lemma walk_path:
  assumes "store_old_path h key 0 [] p = (idx, st, cur)"
  shows "path h p (take idx key) st cur \<and> idx \<le> length key \<and> (idx < length key \<longrightarrow> cur = None)"
  using store_old_path_path [of h p 0 key "[]" p idx st cur] assms
  by (simp add: path_Nil)

lemma Put_upd:
  assumes ok: "trie_ok h t" and run: "Put h t key T v = (h', t')"
  shows "prefix h h' \<and> trie_ok h' t' \<and> upd_of h' (root t') h (root t) key (put_result T v)"
proof -
  obtain idx st cur where w: "store_old_path h key 0 [] (root t) = (idx, st, cur)"
    by (cases "store_old_path h key 0 [] (root t)") auto
  from walk_path [OF w]
  have pth: "path h (root t) (take idx key) st cur" and idx: "idx \<le> length key"
    and short: "idx < length key \<longrightarrow> cur = None" by simp_all
  have closed: "heap_closed h" and vroot: "valid_ptr h (root t)"
    using ok by (simp_all add: trie_ok_def)
  have vcur: "valid_ptr h cur" using pth closed vroot by (rule path_valid)
  let ?ch = "case cur of Some a \<Rightarrow> children (h ! a) | None \<Rightarrow> []"
  let ?N = "TrieNodeWithValue_new ?ch T v"
  let ?h1 = "h @ [?N]"
  have leaf: "(case cur of Some a \<Rightarrow> alloc h (TrieNodeWithValue_new (children (h ! a)) T v)
                | None \<Rightarrow> alloc h (TrieNodeWithValue_new [] T v)) = (?h1, length h)"
    by (cases cur) (simp_all add: alloc_def)
  obtain h2 child where ci: "create_inner ?h1 key idx (length key) (Some (length h)) = (h2, child)"
    by (cases "create_inner ?h1 key idx (length key) (Some (length h))") auto
  obtain h3 cur' where cp: "copy_path h2 key st (length st) child = (h3, cur')"
    by (cases "copy_path h2 key st (length st) child") auto
  have res: "h' = h3" "t' = \<lparr>root = cur'\<rparr>"
    using run by (simp_all add: Put_def w leaf ci cp)
  have p01: "prefix h ?h1" by simp
  have "list_all (\<lambda>(c, p). valid_ptr h p) ?ch"
    using vcur closed by (cases cur) (simp_all add: heap_closed_children)
  then have closed1: "heap_closed ?h1"
    using closed by (simp add: heap_closed_snoc TrieNodeWithValue_new_def)
  have u1: "upd_of ?h1 (Some (length h)) h cur [] (put_result T v)"
  proof (rule upd_of_here [OF closed vcur p01])
    show "Get_value ?h1 (Some (length h)) U = put_result T v U" for U
      by (simp add: Get_value_def deref_def dynamic_cast_def TrieNodeWithValue_new_def
          put_result_def)
    show "child_of ?h1 (Some (length h)) c = child_of h cur c" for c
      by (cases cur) (simp_all add: child_of_def TrieNodeWithValue_new_def find_or_null_def)
  qed
  have "prefix ?h1 h2 \<and> heap_closed h2 \<and> valid_ptr h2 child \<and>
        upd_of h2 child h cur (drop idx key) (put_result T v)"
    using closed vcur p01 closed1 _ idx _ short _ ci
    by (rule create_inner_upd) (simp_all add: u1)
  then have p12: "prefix ?h1 h2" and closed2: "heap_closed h2" and vchild: "valid_ptr h2 child"
    and u2: "upd_of h2 child h cur (drop idx key) (put_result T v)" by simp_all
  have p02: "prefix h h2" using p01 p12 by (rule prefix_order.trans)
  have "copy_path h2 (take idx key @ drop idx key) st (length st) child = (h3, cur')"
    using cp by simp
  from copy_path_upd [OF pth closed vroot p02 closed2 vchild u2 this]
  have "prefix h2 h3" "heap_closed h3" "valid_ptr h3 cur'"
    "upd_of h3 cur' h (root t) key (put_result T v)" by simp_all
  moreover have "prefix h h3" using p02 \<open>prefix h2 h3\<close> by (rule prefix_order.trans)
  ultimately show ?thesis by (simp add: res trie_ok_def)
qed

lemma Remove_upd:
  assumes ok: "trie_ok h t" and run: "Remove h t key = (h', t')"
  shows "prefix h h' \<and> trie_ok h' t' \<and> upd_of h' (root t') h (root t) key removed"
proof -
  obtain idx st cur where w: "store_old_path h key 0 [] (root t) = (idx, st, cur)"
    by (cases "store_old_path h key 0 [] (root t)") auto
  from walk_path [OF w]
  have pth: "path h (root t) (take idx key) st cur" and idx: "idx \<le> length key"
    and short: "idx < length key \<longrightarrow> cur = None" by simp_all
  have closed: "heap_closed h" and vroot: "valid_ptr h (root t)"
    using ok by (simp_all add: trie_ok_def)
  have vcur: "valid_ptr h cur" using pth closed vroot by (rule path_valid)
  have walk: "Get h \<lparr>root = root t\<rparr> key U = Get h \<lparr>root = cur\<rparr> (drop idx key) U" for U
    using path_Get [OF pth, of "drop idx key" U] by simp
  have same: "upd_of h (root t) h (root t) key removed"
    if "\<And>U. Get h \<lparr>root = cur\<rparr> (drop idx key) U = Inr None"
    using that by (simp add: upd_of_def walk removed_def)
  show ?thesis
  proof (cases cur)
    case None
    then have "h' = h" "t' = t" using run by (simp_all add: Remove_def w cong: if_cong)
    moreover have "upd_of h (root t) h (root t) key removed"
      using None by (intro same) simp
    ultimately show ?thesis using ok by simp
  next
    case (Some a)
    then have full: "idx = length key" using short idx by auto
    have a: "a < length h" using vcur Some by simp
    show ?thesis
    proof (cases "is_value_node (h ! a)")
      case False
      then have "h' = h" "t' = t" using run Some by (simp_all add: Remove_def w cong: if_cong)
      moreover have "upd_of h (root t) h (root t) key removed"
        using Some full False by (intro same) (simp add: Get_Nil Get_value_def deref_def)
      ultimately show ?thesis using ok by simp
    next
      case True
      let ?N = "TrieNode_new (children (h ! a)) :: ('a, 'b) TrieNode"
      let ?h1 = "if children (h ! a) = [] then h else h @ [?N]"
      let ?e = "if children (h ! a) = [] then None else Some (length h)"
      obtain h2 cur' where cp: "copy_path ?h1 key st (length st) ?e = (h2, cur')"
        by (cases "copy_path ?h1 key st (length st) ?e") auto
      have res: "h' = h2" "t' = \<lparr>root = cur'\<rparr>"
        using run Some full True cp by (auto simp: Remove_def w alloc_def split: if_splits)
      have p01: "prefix h ?h1" by simp
      have closed1: "heap_closed ?h1"
        using closed heap_closed_children [OF closed a]
        by (simp add: heap_closed_snoc TrieNode_new_def)
      have ve: "valid_ptr ?h1 ?e" by simp
      have u1: "upd_of ?h1 ?e h cur [] removed"
      proof (rule upd_of_here [OF closed vcur p01])
        show "Get_value ?h1 ?e U = removed U" for U
          by (simp add: Get_value_def deref_def TrieNode_new_def removed_def)
        show "child_of ?h1 ?e c = child_of h cur c" for c
          using Some by (simp add: child_of_def TrieNode_new_def find_or_null_def)
      qed
      have "copy_path ?h1 (take idx key @ []) st (length st) ?e = (h2, cur')"
        using cp full by simp
      from copy_path_upd [OF pth closed vroot p01 closed1 ve _ this] u1 full
      have "prefix ?h1 h2" "heap_closed h2" "valid_ptr h2 cur'"
        "upd_of h2 cur' h (root t) key removed" by simp_all
      moreover have "prefix h h2" using p01 \<open>prefix ?h1 h2\<close> by (rule prefix_order.trans)
      ultimately show ?thesis by (simp add: res trie_ok_def)
    qed
  qed
qed

lemma upd_ofD:
  "upd_of h' (root t') h (root t) ks r \<Longrightarrow>
   Get h' t' key U = (if key = ks then r U else Get h t key U)"
  using Get_root [of h' t' key U] Get_root [of h t key U] by (simp add: upd_of_def)

lemma Put_Get:
  assumes "trie_ok h t" and "Put h t k T v = (h', t')"
  shows "Get h' t' key U = (if key = k then Inr (if T = U then Some v else None) else Get h t key U)"
proof -
  from Put_upd [OF assms] have "upd_of h' (root t') h (root t) k (put_result T v)" by simp
  from upd_ofD [OF this] show ?thesis by (simp add: put_result_def)
qed

lemma Put_ok:
  assumes "trie_ok h t" and "Put h t k T v = (h', t')"
  shows "trie_ok h' t'" and "prefix h h'"
  using Put_upd [OF assms] by simp_all

lemma Remove_ok:
  assumes "trie_ok h t" and "Remove h t k = (h', t')"
  shows "trie_ok h' t'" and "prefix h h'"
  using Remove_upd [OF assms] by simp_all

lemma trie_ok_empty: "trie_ok [] \<lparr>root = None\<rparr>"
  by (simp add: trie_ok_def heap_closed_def)

lemma Remove_Get:
  assumes "trie_ok h t" and "Remove h t k = (h', t')"
  shows "Get h' t' key U = (if key = k then Inr None else Get h t key U)"
proof -
  from Remove_upd [OF assms] have "upd_of h' (root t') h (root t) k removed" by simp
  from upd_ofD [OF this] show ?thesis by (simp add: removed_def)
qed

lemma path_Get_loop:
  "path h p ks st q \<Longrightarrow>
   Get_loop h p (ks @ rest) = Inr (Some (Some a)) \<longleftrightarrow> Get_loop h q rest = Inr (Some (Some a))"
proof (induction arbitrary: rest rule: path.induct)
  case path_Nil
  then show ?case by simp
next
  case (path_snoc ks st b c)
  have "Get_loop h (Some b) (c # rest) = Inr (Some (Some a)) \<longleftrightarrow>
        Get_loop h (child_of h (Some b) c) rest = Inr (Some (Some a))"
    by (cases rest)
      (auto simp: child_of_def find_or_null_def deref_def map_at_def split: option.splits)
  with path_snoc.IH [of "c # rest"] show ?case by simp
qed

lemma Get_loop_append:
  "Get_loop h p pre = Inr (Some q) \<Longrightarrow> Get_loop h p (pre @ rest) = Get_loop h q rest"
  by (induction pre arbitrary: p) (auto split: if_splits sum.splits)

lemma Get_loop_no_fault: "Get_loop h p key \<noteq> Inl e"
  by (induction key arbitrary: p)
    (auto simp: deref_def map_at_def split: option.splits)

subsection \<open>The loops end\<close>

text \<open>
  Each \<^verbatim>\<open>while\<close> loop ends in the state the recursive function returns, after a number of
  rounds bounded by what is left of the key (for the copy loop, of the stack).
\<close>

lemma walk_while:
  "while_option (walk_cond key) (walk_body h key) (idx, st, cur) =
   Some (store_old_path h key idx st cur)"
proof (induction h key idx st cur rule: store_old_path.induct)
  case (1 h key idx node_stack cur)
  show ?case
  proof (cases "idx < length key \<and> cur \<noteq> None")
    case False
    then have "\<not> walk_cond key (idx, node_stack, cur)" by (simp add: walk_cond_def)
    then have "while_option (walk_cond key) (walk_body h key) (idx, node_stack, cur) =
      Some (idx, node_stack, cur)" by (subst while_option_unfold) simp
    moreover have "store_old_path h key idx node_stack cur = (idx, node_stack, cur)"
      using False by (subst store_old_path.simps) (auto split: option.splits)
    ultimately show ?thesis by simp
  next
    case True
    then obtain a where a: "cur = Some a" and lt: "idx < length key" by auto
    have c: "walk_cond key (idx, node_stack, cur)" using True by (simp add: walk_cond_def)
    have "while_option (walk_cond key) (walk_body h key) (idx, node_stack, cur) =
      while_option (walk_cond key) (walk_body h key)
        (idx + 1, node_stack @ [a], find_or_null (children (h ! a)) (key ! idx))"
      using c a by (subst while_option_unfold) (simp add: walk_body_def)
    also have "\<dots> = Some (store_old_path h key (idx + 1) (node_stack @ [a])
        (find_or_null (children (h ! a)) (key ! idx)))"
      using lt a by (rule "1.IH")
    also have "\<dots> = Some (store_old_path h key idx node_stack cur)"
      using lt a by (subst (2) store_old_path.simps) simp
    finally show ?thesis .
  qed
qed

lemma walk_bound:
  "\<exists>n\<le>length key - idx. \<not> walk_cond key ((walk_body h key ^^ n) (idx, st, cur))"
proof (induction h key idx st cur rule: store_old_path.induct)
  case (1 h key idx node_stack cur)
  show ?case
  proof (cases "idx < length key \<and> cur \<noteq> None")
    case False
    then have "\<not> walk_cond key ((walk_body h key ^^ 0) (idx, node_stack, cur))"
      by (simp add: walk_cond_def)
    then show ?thesis by blast
  next
    case True
    then obtain a where a: "cur = Some a" and lt: "idx < length key" by auto
    let ?s = "(idx + 1, node_stack @ [a], find_or_null (children (h ! a)) (key ! idx))"
    from "1.IH" [OF lt a] obtain n where n: "n \<le> length key - (idx + 1)"
      "\<not> walk_cond key ((walk_body h key ^^ n) ?s)" by blast
    have "walk_body h key (idx, node_stack, cur) = ?s" using a by (simp add: walk_body_def)
    then have "(walk_body h key ^^ Suc n) (idx, node_stack, cur) = (walk_body h key ^^ n) ?s"
      by (simp add: funpow_swap1)
    with n lt have "Suc n \<le> length key - idx \<and>
      \<not> walk_cond key ((walk_body h key ^^ Suc n) (idx, node_stack, cur))" by simp
    then show ?thesis by blast
  qed
qed

lemma inner_while:
  "map_option (\<lambda>(h, key_size, child_node). (h, child_node))
     (while_option (inner_cond idx) (inner_body key) (h, key_size, child)) =
   Some (create_inner h key idx key_size child)"
proof (induction h key idx key_size child rule: create_inner.induct)
  case (1 h key idx key_size child_node)
  show ?case
  proof (cases "idx < key_size")
    case False
    then have "while_option (inner_cond idx) (inner_body key) (h, key_size, child_node) =
      Some (h, key_size, child_node)"
      by (subst while_option_unfold) (simp add: inner_cond_def)
    moreover have "create_inner h key idx key_size child_node = (h, child_node)"
      using False by (subst create_inner.simps) simp
    ultimately show ?thesis by simp
  next
    case True
    let ?N = "TrieNode_new [(key ! (key_size - 1), child_node)] :: ('a, 'b) TrieNode"
    have c: "inner_cond idx (h, key_size, child_node)"
      using True by (simp add: inner_cond_def)
    have b: "inner_body key (h, key_size, child_node) =
      (h @ [?N], key_size - 1, Some (length h))"
      by (simp add: inner_body_def alloc_def Let_def)
    have "while_option (inner_cond idx) (inner_body key) (h, key_size, child_node) =
      while_option (inner_cond idx) (inner_body key) (h @ [?N], key_size - 1, Some (length h))"
      using c b by (subst while_option_unfold) simp
    moreover have "create_inner h key idx key_size child_node =
      create_inner (h @ [?N]) key idx (key_size - 1) (Some (length h))"
      using True by (subst create_inner.simps) (simp add: alloc_def Let_def)
    moreover have "map_option (\<lambda>(h, key_size, child_node). (h, child_node))
       (while_option (inner_cond idx) (inner_body key) (h @ [?N], key_size - 1, Some (length h))) =
      Some (create_inner (h @ [?N]) key idx (key_size - 1) (Some (length h)))"
      by (rule "1.IH" [OF True refl refl refl]) (simp add: alloc_def)
    ultimately show ?thesis by simp
  qed
qed

lemma inner_bound:
  "\<exists>n\<le>key_size - idx. \<not> inner_cond idx ((inner_body key ^^ n) (h, key_size, child))"
proof (induction h key idx key_size child rule: create_inner.induct)
  case (1 h key idx key_size child_node)
  show ?case
  proof (cases "idx < key_size")
    case False
    then have "\<not> inner_cond idx ((inner_body key ^^ 0) (h, key_size, child_node))"
      by (simp add: inner_cond_def)
    then show ?thesis by blast
  next
    case True
    let ?N = "TrieNode_new [(key ! (key_size - 1), child_node)] :: ('a, 'b) TrieNode"
    let ?s = "(h @ [?N], key_size - 1, Some (length h))"
    have "\<exists>n\<le>key_size - 1 - idx. \<not> inner_cond idx ((inner_body key ^^ n) ?s)"
      by (rule "1.IH" [OF True refl refl refl]) (simp add: alloc_def)
    then obtain n where n: "n \<le> key_size - 1 - idx"
      "\<not> inner_cond idx ((inner_body key ^^ n) ?s)" by blast
    have "inner_body key (h, key_size, child_node) = ?s"
      by (simp add: inner_body_def alloc_def Let_def)
    then have "(inner_body key ^^ Suc n) (h, key_size, child_node) = (inner_body key ^^ n) ?s"
      by (simp add: funpow_swap1)
    with n True have "Suc n \<le> key_size - idx \<and>
      \<not> inner_cond idx ((inner_body key ^^ Suc n) (h, key_size, child_node))" by simp
    then show ?thesis by blast
  qed
qed

lemma copy_while:
  "n \<le> length st \<Longrightarrow> length st \<le> SIZE_MAX \<Longrightarrow>
   map_option (\<lambda>(h, i, child_node). (h, child_node))
     (while_option (copy_cond st) (copy_body key st) (h, size_t_dec n, child)) =
   Some (copy_path h key st n child)"
proof (induction n arbitrary: h child)
  case 0
  then have "\<not> copy_cond st (h, size_t_dec 0, child)"
    by (simp add: copy_cond_def size_t_dec_def)
  then have "while_option (copy_cond st) (copy_body key st) (h, size_t_dec 0, child) =
    Some (h, size_t_dec 0, child)" by (subst while_option_unfold) simp
  then show ?case by simp
next
  case (Suc n)
  let ?c = "(h ! (st ! n))\<lparr>children := AList.update (key ! n) child (children (h ! (st ! n)))\<rparr>"
  have c: "copy_cond st (h, size_t_dec (Suc n), child)"
    using Suc.prems by (simp add: copy_cond_def size_t_dec_def)
  have b: "copy_body key st (h, size_t_dec (Suc n), child) =
    (h @ [?c], size_t_dec n, Some (length h))"
    by (simp add: copy_body_def size_t_dec_def alloc_def Clone_def)
  have "while_option (copy_cond st) (copy_body key st) (h, size_t_dec (Suc n), child) =
    while_option (copy_cond st) (copy_body key st) (h @ [?c], size_t_dec n, Some (length h))"
    using c b by (subst while_option_unfold) simp
  moreover have "copy_path h key st (Suc n) child = copy_path (h @ [?c]) key st n (Some (length h))"
    by (simp add: alloc_def Clone_def)
  moreover have "map_option (\<lambda>(h, i, child_node). (h, child_node))
     (while_option (copy_cond st) (copy_body key st) (h @ [?c], size_t_dec n, Some (length h))) =
    Some (copy_path (h @ [?c]) key st n (Some (length h)))"
    using Suc.prems by (intro Suc.IH) simp_all
  ultimately show ?case by simp
qed

lemma copy_bound:
  "n \<le> length st \<Longrightarrow> length st \<le> SIZE_MAX \<Longrightarrow>
   \<exists>j\<le>n. \<not> copy_cond st ((copy_body key st ^^ j) (h, size_t_dec n, child))"
proof (induction n arbitrary: h child)
  case 0
  then have "\<not> copy_cond st ((copy_body key st ^^ 0) (h, size_t_dec 0, child))"
    by (simp add: copy_cond_def size_t_dec_def)
  then show ?case by blast
next
  case (Suc n)
  let ?c = "(h ! (st ! n))\<lparr>children := AList.update (key ! n) child (children (h ! (st ! n)))\<rparr>"
  let ?s = "(h @ [?c], size_t_dec n, Some (length h))"
  have b: "copy_body key st (h, size_t_dec (Suc n), child) = ?s"
    by (simp add: copy_body_def size_t_dec_def alloc_def Clone_def)
  from Suc.prems have "n \<le> length st" by simp
  from Suc.IH [OF this Suc.prems(2)] obtain j where j: "j \<le> n"
    "\<not> copy_cond st ((copy_body key st ^^ j) ?s)" by blast
  have "(copy_body key st ^^ Suc j) (h, size_t_dec (Suc n), child) = (copy_body key st ^^ j) ?s"
    using b by (simp add: funpow_swap1)
  with j have "Suc j \<le> Suc n \<and>
    \<not> copy_cond st ((copy_body key st ^^ Suc j) (h, size_t_dec (Suc n), child))" by simp
  then show ?case by blast
qed

lemma Get_no_fault: "Get h t key U \<noteq> Inl e"
  using Get_loop_no_fault [of h "root t" key]
  by (auto simp: Get_def Get_value_def deref_def split: sum.splits option.splits)

lemma walk_stack_length:
  assumes "store_old_path h key 0 [] p = (idx, st, cur)"
  shows "length st = idx" and "idx \<le> length key"
proof -
  from walk_path [OF assms]
  have pth: "path h p (take idx key) st cur" and idx: "idx \<le> length key" by simp_all
  show "idx \<le> length key" by (rule idx)
  show "length st = idx" using path_length [OF pth] idx by simp
qed

lemma Put_while_eq:
  assumes "length key \<le> SIZE_MAX"
  shows "Put_while h t key T v = Some (Put h t key T v)"
proof -
  obtain idx st cur where w: "store_old_path h key 0 [] (root t) = (idx, st, cur)"
    by (cases "store_old_path h key 0 [] (root t)") auto
  have st: "length st \<le> SIZE_MAX"
    using walk_stack_length [OF w] assms by simp
  have l1: "while_option (walk_cond key) (walk_body h key) (0, [], root t) = Some (idx, st, cur)"
    by (simp add: walk_while w)
  obtain h1 leaf where lf: "(case cur of
       Some a \<Rightarrow> alloc h (TrieNodeWithValue_new (children (h ! a)) T v)
     | None \<Rightarrow> alloc h (TrieNodeWithValue_new [] T v)) = (h1, leaf)"
    by (cases cur) (auto simp: alloc_def)
  obtain h2 child where ci: "create_inner h1 key idx (length key) (Some leaf) = (h2, child)"
    by (cases "create_inner h1 key idx (length key) (Some leaf)") auto
  from inner_while [of idx key h1 "length key" "Some leaf"] ci
  obtain ks where l2: "while_option (inner_cond idx) (inner_body key)
      (h1, length key, Some leaf) = Some (h2, ks, child)"
    by (auto split: prod.splits)
  obtain h3 cur' where cp: "copy_path h2 key st (length st) child = (h3, cur')"
    by (cases "copy_path h2 key st (length st) child") auto
  from copy_while [OF order_refl st, of key h2 child] cp
  obtain i where l3: "while_option (copy_cond st) (copy_body key st)
      (h2, size_t_dec (length st), child) = Some (h3, i, cur')"
    by (auto split: prod.splits)
  show ?thesis
    by (simp add: Put_while_def Put_def w l1 lf l2 ci l3 cp)
qed

lemma Remove_while_eq:
  assumes "length key \<le> SIZE_MAX"
  shows "Remove_while h t key = Some (Remove h t key)"
proof -
  obtain idx st cur where w: "store_old_path h key 0 [] (root t) = (idx, st, cur)"
    by (cases "store_old_path h key 0 [] (root t)") auto
  have st: "length st \<le> SIZE_MAX"
    using walk_stack_length [OF w] assms by simp
  have l1: "while_option (walk_cond key) (walk_body h key) (0, [], root t) = Some (idx, st, cur)"
    by (simp add: walk_while w)
  show ?thesis
  proof (cases cur)
    case None
    then show ?thesis by (simp add: Remove_while_def Remove_def w l1 cong: if_cong)
  next
    case (Some a)
    let ?h1 = "if children (h ! a) = [] then h else h @ [TrieNode_new (children (h ! a))]"
    let ?e = "if children (h ! a) = [] then None else Some (length h)"
    obtain h2 cur' where cp: "copy_path ?h1 key st (length st) ?e = (h2, cur')"
      by (cases "copy_path ?h1 key st (length st) ?e") auto
    from copy_while [OF order_refl st, of key ?h1 ?e] cp
    obtain i where l3: "while_option (copy_cond st) (copy_body key st)
        (?h1, size_t_dec (length st), ?e) = Some (h2, i, cur')"
      by (auto split: prod.splits)
    show ?thesis
      using Some l3 cp
      by (auto simp: Remove_while_def Remove_def w l1 alloc_def split: if_splits)
  qed
qed

subsection \<open>The example store\<close>

lemma ex_built:
  "(let (h1, t1) = Put [] \<lparr>root = None\<rparr> ''a'' ''uint32_t'' (1::nat);
        (h2, t2) = Put h1 t1 ''ab'' ''uint32_t'' 2
    in Put h2 t2 ''ac'' ''uint64_t'' 3) = (ex_heap, ex_trie)"
  by code_simp

lemma ex_ok: "trie_ok ex_heap ex_trie"
  by code_simp

lemma ex_put: "Put ex_heap ex_trie ''ab'' ''uint64_t'' 5 = (ex_heap_put, \<lparr>root = Some 10\<rparr>)"
  by code_simp

lemma ex_rem: "Remove ex_heap_put \<lparr>root = Some 10\<rparr> ''ab'' = (ex_heap_rem, \<lparr>root = Some 12\<rparr>)"
  by code_simp

section \<open>The claims\<close>

text \<open>
  C1. In every well-formed store, for every version \<open>t\<close>, every key \<open>k\<close> (the empty key
  too), every type \<open>T\<close> and value \<open>v\<close>: \<^verbatim>\<open>Get<T>\<close> of \<open>k\<close> on the version that
  \<^verbatim>\<open>Put(k, v)\<close> returns is a pointer to a value equal to \<open>v\<close>.
\<close>

theorem Get_Put_same:
  assumes "trie_ok h t" and "Put h t k T v = (h', t')"
  shows "Get h' t' k T = Inr (Some v)"
  by (simp add: Put_Get [OF assms])

theorem Get_Put_same_witness:
  "trie_ok ex_heap ex_trie \<and>
   Put ex_heap ex_trie ''ab'' ''uint64_t'' 5 = (ex_heap_put, \<lparr>root = Some 10\<rparr>) \<and>
   Get ex_heap_put \<lparr>root = Some 10\<rparr> ''ab'' ''uint64_t'' = Inr (Some 5)"
  using Get_Put_same [OF ex_ok ex_put] ex_ok ex_put by simp

text \<open>
  C2. \<^verbatim>\<open>Put\<close> is non-destructive. Every node object that existed before the call is
  unchanged after it, so the source version reads as before under every key and type;
  and under every key other than \<open>k\<close> the new version reads as the source version does.
\<close>

theorem Put_non_destructive:
  assumes "trie_ok h t" and "Put h t k T v = (h', t')"
  shows "length h \<le> length h' \<and> (\<forall>a<length h. h' ! a = h ! a) \<and>
         (\<forall>k' U. Get h' t k' U = Get h t k' U) \<and>
         (\<forall>k' U. k' \<noteq> k \<longrightarrow> Get h' t' k' U = Get h t k' U)"
proof -
  have p: "prefix h h'" using assms by (rule Put_ok)
  have "Get h' t k' U = Get h t k' U" for k' U
    using Get_prefix [OF p, of "root t" k' U] assms(1)
      Get_root [of h' t k' U] Get_root [of h t k' U]
    by (simp add: trie_ok_def)
  moreover have "Get h' t' k' U = Get h t k' U" if "k' \<noteq> k" for k' U
    using that by (simp add: Put_Get [OF assms])
  ultimately show ?thesis
    using p by (simp add: prefix_length_le prefix_nth)
qed

theorem Put_non_destructive_witness:
  "trie_ok ex_heap ex_trie \<and>
   Put ex_heap ex_trie ''ab'' ''uint64_t'' 5 = (ex_heap_put, \<lparr>root = Some 10\<rparr>) \<and>
   length ex_heap \<le> length ex_heap_put \<and>
   (6 < length ex_heap \<and> ex_heap_put ! 6 = ex_heap ! 6) \<and>
   Get ex_heap_put ex_trie ''ab'' ''uint32_t'' = Get ex_heap ex_trie ''ab'' ''uint32_t'' \<and>
   Get ex_heap ex_trie ''ab'' ''uint32_t'' = Inr (Some 2) \<and>
   (''ac'' \<noteq> ''ab'' \<and>
    Get ex_heap_put \<lparr>root = Some 10\<rparr> ''ac'' ''uint64_t'' = Get ex_heap ex_trie ''ac'' ''uint64_t'' \<and>
    Get ex_heap ex_trie ''ac'' ''uint64_t'' = Inr (Some 3))"
proof -
  have n: "6 < length ex_heap" by (simp add: ex_heap_def)
  have g1: "Get ex_heap ex_trie ''ab'' ''uint32_t'' = Inr (Some 2)" by code_simp
  have g2: "Get ex_heap ex_trie ''ac'' ''uint64_t'' = Inr (Some 3)" by code_simp
  from Put_non_destructive [OF ex_ok ex_put] n g1 g2 ex_ok ex_put
  show ?thesis by simp
qed

text \<open>
  C3. \<^verbatim>\<open>Remove(k)\<close> after \<^verbatim>\<open>Put(k, v)\<close> gives a version that reads as the original one
  under every key other than \<open>k\<close>, and reads absent under \<open>k\<close>, for every type asked for.
\<close>

theorem Remove_Put:
  assumes "trie_ok h t" and "Put h t k T v = (h1, t1)" and "Remove h1 t1 k = (h2, t2)"
  shows "(\<forall>k' U. k' \<noteq> k \<longrightarrow> Get h2 t2 k' U = Get h t k' U) \<and>
         (\<forall>U. Get h2 t2 k U = Inr None)"
proof -
  have ok1: "trie_ok h1 t1" using assms(1,2) by (rule Put_ok)
  show ?thesis
    by (simp add: Remove_Get [OF ok1 assms(3)] Put_Get [OF assms(1,2)])
qed

theorem Remove_Put_witness:
  "trie_ok ex_heap ex_trie \<and>
   Put ex_heap ex_trie ''ab'' ''uint64_t'' 5 = (ex_heap_put, \<lparr>root = Some 10\<rparr>) \<and>
   Remove ex_heap_put \<lparr>root = Some 10\<rparr> ''ab'' = (ex_heap_rem, \<lparr>root = Some 12\<rparr>) \<and>
   (''a'' \<noteq> ''ab'' \<and>
    Get ex_heap_rem \<lparr>root = Some 12\<rparr> ''a'' ''uint32_t'' = Get ex_heap ex_trie ''a'' ''uint32_t'' \<and>
    Get ex_heap ex_trie ''a'' ''uint32_t'' = Inr (Some 1)) \<and>
   Get ex_heap_rem \<lparr>root = Some 12\<rparr> ''ab'' ''uint64_t'' = Inr None"
proof -
  have g: "Get ex_heap ex_trie ''a'' ''uint32_t'' = Inr (Some 1)" by code_simp
  from Remove_Put [OF ex_ok ex_put ex_rem] g ex_ok ex_put ex_rem
  show ?thesis by simp
qed

text \<open>
  C4. When the walk of \<^verbatim>\<open>Remove\<close> lands on a value node without children, the terminal
  replacement is absent and the entry of each cloned ancestor whose replacement below
  is absent is erased from the clone's mapping. The code does the first and not the
  second: line 113 assigns \<^verbatim>\<open>children_[key[i]] = child_node\<close> with a null \<^verbatim>\<open>child_node\<close>,
  so the entry stays, bound to null. Here \<^verbatim>\<open>Remove("ab")\<close> lands on cell 8, a value node
  without children, and the clone of its parent (cell 11) still has an entry for
  \<^verbatim>\<open>'b'\<close>.
\<close>

theorem Remove_keeps_null_entry:
  "Get_loop ex_heap_put (Some 10) ''ab'' = Inr (Some (Some 8)) \<and>
   is_value_node (ex_heap_put ! 8) \<and> children (ex_heap_put ! 8) = [] \<and>
   Remove ex_heap_put \<lparr>root = Some 10\<rparr> ''ab'' = (ex_heap_rem, \<lparr>root = Some 12\<rparr>) \<and>
   map_of (children (ex_heap_rem ! 12)) CHR ''a'' = Some (Some 11) \<and>
   map_of (children (ex_heap_rem ! 11)) CHR ''b'' = Some None"
  by code_simp

theorem Remove_keeps_null_entry_witness:
  "map_of (children (ex_heap_rem ! 11)) CHR ''b'' \<noteq> None"
  using Remove_keeps_null_entry by simp

text \<open>
  C5. When the walk for \<open>k\<close> does not end on a value node (the key is not matched to its
  end, the node it lands on is absent, or that node holds no value), \<^verbatim>\<open>Remove(k)\<close>
  returns the version it was called on: the same root pointer, and no node is
  allocated.
\<close>

theorem Remove_absent_unchanged:
  assumes "\<not> (\<exists>a. Get_loop h (root t) k = Inr (Some (Some a)) \<and> is_value_node (h ! a))"
  shows "Remove h t k = (h, t)"
proof -
  obtain idx st cur where w: "store_old_path h k 0 [] (root t) = (idx, st, cur)"
    by (cases "store_old_path h k 0 [] (root t)") auto
  from walk_path [OF w]
  have pth: "path h (root t) (take idx k) st cur" and idx: "idx \<le> length k"
    and short: "idx < length k \<longrightarrow> cur = None" by simp_all
  show ?thesis
  proof (cases cur)
    case None
    then show ?thesis by (simp add: Remove_def w cong: if_cong)
  next
    case (Some a)
    then have full: "idx = length k" using short idx by auto
    have "Get_loop h (root t) k = Inr (Some (Some a))"
      using path_Get_loop [OF pth, of "[]" a] Some full by simp
    with assms have "\<not> is_value_node (h ! a)" by blast
    then show ?thesis using Some by (simp add: Remove_def w cong: if_cong)
  qed
qed

theorem Remove_absent_unchanged_witness:
  "Get_loop ex_heap (root ex_trie) ''abc'' = Inr None \<and>
   Remove ex_heap ex_trie ''abc'' = (ex_heap, ex_trie) \<and>
   Get_loop ex_heap_rem (Some 12) ''ab'' = Inr (Some None) \<and>
   Remove ex_heap_rem \<lparr>root = Some 12\<rparr> ''ab'' = (ex_heap_rem, \<lparr>root = Some 12\<rparr>) \<and>
   Get_loop ex_heap (root ex_trie) [] = Inr (Some (Some 7)) \<and>
   \<not> is_value_node (ex_heap ! 7) \<and>
   Remove ex_heap ex_trie [] = (ex_heap, ex_trie)"
proof -
  have a: "Get_loop ex_heap (root ex_trie) ''abc'' = Inr None" by code_simp
  have b: "Get_loop ex_heap_rem (Some 12) ''ab'' = Inr (Some None)" by code_simp
  have c: "Get_loop ex_heap (root ex_trie) [] = Inr (Some (Some 7))" by code_simp
  have d: "\<not> is_value_node (ex_heap ! 7)" by code_simp
  have "Remove ex_heap ex_trie ''abc'' = (ex_heap, ex_trie)"
    using Remove_absent_unchanged [of ex_heap ex_trie "''abc''"] a by simp
  moreover have "Remove ex_heap_rem \<lparr>root = Some 12\<rparr> ''ab'' = (ex_heap_rem, \<lparr>root = Some 12\<rparr>)"
    using Remove_absent_unchanged [of ex_heap_rem "\<lparr>root = Some 12\<rparr>" "''ab''"] b by simp
  moreover have "Remove ex_heap ex_trie [] = (ex_heap, ex_trie)"
    using Remove_absent_unchanged [of ex_heap ex_trie "[]"] c d by simp
  ultimately show ?thesis using a b c d by simp
qed

text \<open>
  C6. A key whose stored value has type \<open>T\<close> reads absent under every other type \<open>U\<close>:
  both when the walk lands on a node of class \<^verbatim>\<open>TrieNodeWithValue<T>\<close>, and in
  particular right after \<^verbatim>\<open>Put<T>\<close> stored it.
\<close>

theorem Get_wrong_type:
  assumes "U \<noteq> T"
  shows "(Get_loop h (root t) k = Inr (Some (Some a)) \<and> val (h ! a) = Some (T, v) \<longrightarrow>
            Get h t k U = Inr None) \<and>
         (trie_ok h t \<and> Put h t k T v = (h', t') \<longrightarrow> Get h' t' k U = Inr None)"
proof (intro conjI impI)
  assume "Get_loop h (root t) k = Inr (Some (Some a)) \<and> val (h ! a) = Some (T, v)"
  then show "Get h t k U = Inr None"
    using assms by (simp add: Get_def Get_value_def deref_def dynamic_cast_def)
next
  assume "trie_ok h t \<and> Put h t k T v = (h', t')"
  then have "trie_ok h t" and "Put h t k T v = (h', t')" by simp_all
  then show "Get h' t' k U = Inr None"
    using assms by (simp add: Put_Get)
qed

theorem Get_wrong_type_witness:
  "''uint32_t'' \<noteq> ''uint64_t'' \<and>
   Get_loop ex_heap (root ex_trie) ''ac'' = Inr (Some (Some 5)) \<and>
   val (ex_heap ! 5) = Some (''uint64_t'', 3) \<and>
   Get ex_heap ex_trie ''ac'' ''uint32_t'' = Inr None \<and>
   trie_ok ex_heap ex_trie \<and>
   Put ex_heap ex_trie ''ab'' ''uint64_t'' 5 = (ex_heap_put, \<lparr>root = Some 10\<rparr>) \<and>
   Get ex_heap_put \<lparr>root = Some 10\<rparr> ''ab'' ''uint32_t'' = Inr None"
proof -
  have ne: "''uint32_t'' \<noteq> ''uint64_t''" by simp
  have a: "Get_loop ex_heap (root ex_trie) ''ac'' = Inr (Some (Some 5))" by code_simp
  have b: "val (ex_heap ! 5) = Some (''uint64_t'', 3)" by code_simp
  have "Get ex_heap ex_trie ''ac'' ''uint32_t'' = Inr None"
    using Get_wrong_type [OF ne, where h = ex_heap and t = ex_trie and k = "''ac''"
        and a = 5 and v = 3] a b by simp
  moreover have "Get ex_heap_put \<lparr>root = Some 10\<rparr> ''ab'' ''uint32_t'' = Inr None"
    using Get_wrong_type [OF ne, where h = ex_heap and t = ex_trie and k = "''ab''"
        and v = 5 and h' = ex_heap_put and t' = "\<lparr>root = Some 10\<rparr>"] ex_ok ex_put by simp
  ultimately show ?thesis using ne a b ex_ok ex_put by simp
qed

text \<open>
  C7. No node of a reachable version other than the root is both childless and
  valueless. The code breaks this: after \<^verbatim>\<open>Put("ab", 7)\<close> on the empty trie and
  \<^verbatim>\<open>Remove("ab")\<close>, the root (cell 4) has the child cell 3 under \<^verbatim>\<open>'a'\<close>, and cell 3
  holds no value and has no child, only the entry for \<^verbatim>\<open>'b'\<close> bound to null.
\<close>

theorem Remove_leaves_empty_node:
  "Put [] \<lparr>root = None\<rparr> ''ab'' ''uint32_t'' 7 = (ex_single, \<lparr>root = Some 2\<rparr>) \<and>
   Remove ex_single \<lparr>root = Some 2\<rparr> ''ab'' = (ex_single_rem, \<lparr>root = Some 4\<rparr>) \<and>
   map_of (children (ex_single_rem ! 4)) CHR ''a'' = Some (Some 3) \<and>
   children (ex_single_rem ! 3) = [(CHR ''b'', None)] \<and>
   \<not> is_value_node (ex_single_rem ! 3) \<and> val (ex_single_rem ! 3) = None"
  by code_simp

theorem Remove_leaves_empty_node_witness:
  "list_all (\<lambda>(c, p). p = None) (children (ex_single_rem ! 3)) \<and>
   \<not> is_value_node (ex_single_rem ! 3)"
  using Remove_leaves_empty_node by simp

text \<open>
  C8. After \<^verbatim>\<open>Put(k, v1)\<close> with type \<open>T1\<close> and then \<^verbatim>\<open>Put(k, v2)\<close> with another type
  \<open>T2\<close>, the key reads \<open>v2\<close> under \<open>T2\<close> and absent under \<open>T1\<close>.
\<close>

theorem Put_Put_retype:
  assumes "trie_ok h t" and "T1 \<noteq> T2"
    and "Put h t k T1 v1 = (h1, t1)" and "Put h1 t1 k T2 v2 = (h2, t2)"
  shows "Get h2 t2 k T2 = Inr (Some v2) \<and> Get h2 t2 k T1 = Inr None"
proof -
  have ok1: "trie_ok h1 t1" using assms(1,3) by (rule Put_ok)
  show ?thesis
    using assms(2) by (simp add: Put_Get [OF ok1 assms(4)])
qed

theorem Put_Put_retype_witness:
  "trie_ok (take 2 ex_heap) \<lparr>root = Some 1\<rparr> \<and> ''uint32_t'' \<noteq> ''uint64_t'' \<and>
   Put (take 2 ex_heap) \<lparr>root = Some 1\<rparr> ''ab'' ''uint32_t'' 2 =
     (take 5 ex_heap, \<lparr>root = Some 4\<rparr>) \<and>
   Get (fst (Put (take 5 ex_heap) \<lparr>root = Some 4\<rparr> ''ab'' ''uint64_t'' 5))
       (snd (Put (take 5 ex_heap) \<lparr>root = Some 4\<rparr> ''ab'' ''uint64_t'' 5))
       ''ab'' ''uint64_t'' = Inr (Some 5) \<and>
   Get (fst (Put (take 5 ex_heap) \<lparr>root = Some 4\<rparr> ''ab'' ''uint64_t'' 5))
       (snd (Put (take 5 ex_heap) \<lparr>root = Some 4\<rparr> ''ab'' ''uint64_t'' 5))
       ''ab'' ''uint32_t'' = Inr None"
proof -
  have ok: "trie_ok (take 2 ex_heap) \<lparr>root = Some 1\<rparr>" by code_simp
  have ne: "''uint32_t'' \<noteq> ''uint64_t''" by simp
  have p1: "Put (take 2 ex_heap) \<lparr>root = Some 1\<rparr> ''ab'' ''uint32_t'' 2 =
     (take 5 ex_heap, \<lparr>root = Some 4\<rparr>)" by code_simp
  from Put_Put_retype [OF ok ne p1 surjective_pairing] ok p1
  show ?thesis by simp
qed

text \<open>
  C9. Every call of \<^verbatim>\<open>Get\<close>, \<^verbatim>\<open>Put\<close> and \<^verbatim>\<open>Remove\<close> runs to its end, for every store,
  version and key (a key's length is a \<^verbatim>\<open>size_t\<close>): \<^verbatim>\<open>Get\<close> returns a result, \<^verbatim>\<open>Put\<close> and
  \<^verbatim>\<open>Remove\<close> with their loops run as \<^verbatim>\<open>while\<close> loops return what the recursive model
  returns, and each of the three loops leaves after at most \<open>length key\<close> rounds (the
  copy loop for a stack no longer than the key, as the walk leaves it).
\<close>

theorem operations_terminate:
  assumes "length key \<le> SIZE_MAX"
  shows "(\<exists>r. Get h t key T = Inr r) \<and>
         Put_while h t key T v = Some (Put h t key T v) \<and>
         Remove_while h t key = Some (Remove h t key) \<and>
         (\<exists>n\<le>length key. \<not> walk_cond key ((walk_body h key ^^ n) (0, [], root t))) \<and>
         (\<exists>n\<le>length key. \<not> inner_cond idx ((inner_body key ^^ n) (h1, length key, child))) \<and>
         (length st \<le> length key \<longrightarrow>
            (\<exists>n\<le>length key. \<not> copy_cond st
               ((copy_body key st ^^ n) (h2, size_t_dec (length st), child'))))"
proof (intro conjI impI)
  show "\<exists>r. Get h t key T = Inr r"
    using Get_no_fault [of h t key T] by (cases "Get h t key T") auto
  show "Put_while h t key T v = Some (Put h t key T v)"
    using assms by (rule Put_while_eq)
  show "Remove_while h t key = Some (Remove h t key)"
    using assms by (rule Remove_while_eq)
  show "\<exists>n\<le>length key. \<not> walk_cond key ((walk_body h key ^^ n) (0, [], root t))"
    using walk_bound [of key 0 h "[]" "root t"] by simp
  show "\<exists>n\<le>length key. \<not> inner_cond idx ((inner_body key ^^ n) (h1, length key, child))"
    using inner_bound [of "length key" idx key h1 child] by (meson diff_le_self le_trans)
next
  assume "length st \<le> length key"
  then have "length st \<le> SIZE_MAX" using assms by simp
  from copy_bound [OF order_refl this, of key h2 child'] \<open>length st \<le> length key\<close>
  show "\<exists>n\<le>length key. \<not> copy_cond st
    ((copy_body key st ^^ n) (h2, size_t_dec (length st), child'))"
    by (meson le_trans)
qed

theorem operations_terminate_witness:
  "length ''ab'' \<le> SIZE_MAX \<and>
   Get ex_heap ex_trie ''ab'' ''uint32_t'' = Inr (Some 2) \<and>
   Put_while ex_heap ex_trie ''ab'' ''uint64_t'' 5 = Some (ex_heap_put, \<lparr>root = Some 10\<rparr>) \<and>
   Remove_while ex_heap_put \<lparr>root = Some 10\<rparr> ''ab'' = Some (ex_heap_rem, \<lparr>root = Some 12\<rparr>) \<and>
   length [10, 9 :: nat] \<le> length ''ab'' \<and>
   (\<exists>n\<le>length ''ab''. \<not> copy_cond [10, 9]
      ((copy_body ''ab'' [10, 9] ^^ n) (ex_heap_put, size_t_dec (length [10, 9 :: nat]), None)))"
proof -
  have k: "length ''ab'' \<le> SIZE_MAX" by (simp add: SIZE_MAX_def)
  have g: "Get ex_heap ex_trie ''ab'' ''uint32_t'' = Inr (Some 2)" by code_simp
  have "Put_while ex_heap ex_trie ''ab'' ''uint64_t'' 5 = Some (ex_heap_put, \<lparr>root = Some 10\<rparr>)"
    using operations_terminate [OF k, where h = ex_heap and t = ex_trie
        and T = "''uint64_t''" and v = 5, THEN conjunct2, THEN conjunct1]
    by (simp add: ex_put)
  moreover
  have "Remove_while ex_heap_put \<lparr>root = Some 10\<rparr> ''ab'' = Some (ex_heap_rem, \<lparr>root = Some 12\<rparr>)"
    using operations_terminate [OF k, where h = ex_heap_put and t = "\<lparr>root = Some 10\<rparr>",
        THEN conjunct2, THEN conjunct2, THEN conjunct1]
    by (simp add: ex_rem)
  moreover
  have "\<exists>n\<le>length ''ab''. \<not> copy_cond [10, 9]
      ((copy_body ''ab'' [10, 9] ^^ n) (ex_heap_put, size_t_dec (length [10, 9 :: nat]), None))"
    using operations_terminate [OF k, where st = "[10, 9]" and ?h2.0 = ex_heap_put
        and child' = None, THEN conjunct2, THEN conjunct2, THEN conjunct2,
        THEN conjunct2, THEN conjunct2]
    by simp
  ultimately show ?thesis using k g by simp
qed

text \<open>
  C10. \<^verbatim>\<open>Get\<close> never dereferences a null pointer and never calls \<^verbatim>\<open>at\<close> on a missing
  key, whatever the store and the key; and when a walk reaches a node whose entry for
  the next character is bound to null (as \<^verbatim>\<open>Remove\<close> leaves them), every key that
  continues through that entry reads absent.
\<close>

theorem Get_null_child_safe:
  "(\<forall>e. Get h t key U \<noteq> Inl e) \<and>
   (Get_loop h (root t) pre = Inr (Some (Some a)) \<and>
    map_of (children (h ! a)) c = Some None \<longrightarrow>
      Get h t (pre @ c # rest) U = Inr None)"
proof (intro conjI allI impI)
  fix e
  show "Get h t key U \<noteq> Inl e"
    using Get_loop_no_fault [of h "root t" key]
    by (auto simp: Get_def Get_value_def deref_def split: sum.splits option.splits)
next
  assume "Get_loop h (root t) pre = Inr (Some (Some a)) \<and>
    map_of (children (h ! a)) c = Some None"
  then have w: "Get_loop h (root t) pre = Inr (Some (Some a))"
    and n: "map_of (children (h ! a)) c = Some None" by simp_all
  have "Get_loop h (root t) (pre @ c # rest) = Get_loop h (Some a) (c # rest)"
    using w by (rule Get_loop_append)
  also have "\<dots> = Get_loop h None rest"
    using n by (simp add: deref_def map_at_def)
  finally show "Get h t (pre @ c # rest) U = Inr None"
    by (cases rest) (simp_all add: Get_def Get_value_def)
qed

theorem Get_null_child_safe_witness:
  "Get_loop ex_heap_rem (Some 12) ''a'' = Inr (Some (Some 11)) \<and>
   map_of (children (ex_heap_rem ! 11)) CHR ''b'' = Some None \<and>
   Get ex_heap_rem \<lparr>root = Some 12\<rparr> ''abx'' ''uint32_t'' = Inr None \<and>
   Get ex_heap_rem \<lparr>root = Some 12\<rparr> ''ab'' ''uint32_t'' = Inr None"
proof -
  have a: "Get_loop ex_heap_rem (Some 12) ''a'' = Inr (Some (Some 11))" by code_simp
  have b: "map_of (children (ex_heap_rem ! 11)) CHR ''b'' = Some None" by code_simp
  from Get_null_child_safe [of ex_heap_rem "\<lparr>root = Some 12\<rparr>" _ "''uint32_t''" "''a''" 11
      "CHR ''b''" "''x''"]
    Get_null_child_safe [of ex_heap_rem "\<lparr>root = Some 12\<rparr>" _ "''uint32_t''" "''a''" 11
      "CHR ''b''" "[]"] a b
  show ?thesis by simp
qed

end
